theory Spec2Isabelle
  imports Main "HOL-Library.Word"
begin

section \<open>Pixels, buffers and faults\<close>

text \<open>
  The program (\<^verbatim>\<open>src/boxFilterNPP/imageCropper.cu\<close>) works on planes of
  \<^verbatim>\<open>unsigned char\<close>. A pixel intensity is an 8-bit word; a buffer is the list of its
  bytes in row-major order. Coordinates, sizes and indices are C \<^verbatim>\<open>int\<close>s. Inside a
  kernel they are integers, every index being checked against the buffer it is used on;
  the products the host computes in \<^verbatim>\<open>int\<close> for its allocations wrap around at 32 bits
  (\<open>int32\<close> below). What C++ leaves undefined is a fault of the model:
  \<^item> \<open>OutOfBounds\<close>: a read or a write outside the buffer;
  \<^item> \<open>NotRepresentable\<close>: the conversion of a \<^verbatim>\<open>float\<close> to \<^verbatim>\<open>unsigned char\<close> whose
    truncated value does not fit the destination type.
\<close>

type_synonym byte = "8 word"

type_synonym buffer = "byte list"

datatype fault = OutOfBounds | NotRepresentable

definition bnd :: "'e + 'a \<Rightarrow> ('a \<Rightarrow> 'e + 'b) \<Rightarrow> 'e + 'b" where
  "bnd m f = (case m of Inl e \<Rightarrow> Inl e | Inr v \<Rightarrow> f v)"

definition rd :: "buffer \<Rightarrow> int \<Rightarrow> fault + byte" where
  "rd buf i = (if 0 \<le> i \<and> i < int (length buf) then Inr (buf ! nat i) else Inl OutOfBounds)"

definition wr :: "buffer \<Rightarrow> int \<Rightarrow> byte \<Rightarrow> fault + buffer" where
  "wr buf i v = (if 0 \<le> i \<and> i < int (length buf) then Inr (buf[nat i := v]) else Inl OutOfBounds)"

section \<open>Single-precision arithmetic\<close>

text \<open>
  The kernels compute in \<^verbatim>\<open>float\<close> (IEEE 754 binary32, round to nearest, ties to even).
  Every \<^verbatim>\<open>float\<close> they produce is a non-negative multiple of \<open>2\<^sup>-\<^sup>2\<^sup>7\<close> below
  \<open>2\<^sup>1\<^sup>0\<close>: the five constants are, a byte converted to \<^verbatim>\<open>float\<close> is an integer, and
  products, sums and roundings of such multiples are again such multiples. A \<^verbatim>\<open>float\<close> value
  \<open>v\<close> is therefore held as the natural number \<open>v \<sqdot> 2\<^sup>2\<^sup>7\<close>. In this range binary32 has
  neither subnormals nor overflow, so the \<^verbatim>\<open>float\<close>s are the numbers \<open>m \<sqdot> 2\<^sup>s\<close> with
  \<open>m < 2\<^sup>2\<^sup>4\<close>, and rounding keeps the 24 leading bits: a number of \<open>24 + s\<close> bits goes
  to the nearest multiple of \<open>2\<^sup>s\<close>, a tie to the one with an even quotient.
\<close>

type_synonym f32 = nat

text \<open>The length of a number in binary.\<close>

fun sigbits :: "nat \<Rightarrow> nat" where
  "sigbits n = (if n = 0 then 0 else Suc (sigbits (n div 2)))"

declare sigbits.simps [simp del]

definition f32_round :: "nat \<Rightarrow> f32" where
  "f32_round n =
     (let l = sigbits n in
      if l \<le> 24 then n
      else
        (let s = l - 24; q = n div 2 ^ s; r = n mod 2 ^ s; h = 2 ^ (s - 1)
         in (if h < r \<or> (r = h \<and> odd q) then q + 1 else q) * 2 ^ s))"

text \<open>
  \<^verbatim>\<open>c * p\<close> for a \<^verbatim>\<open>float\<close> constant \<open>c\<close> and a byte \<open>p\<close>, which is promoted to
  \<^verbatim>\<open>int\<close> and converted to \<^verbatim>\<open>float\<close> without loss: the exact product, and its rounding.
\<close>

definition exact_mul :: "f32 \<Rightarrow> byte \<Rightarrow> nat" where
  "exact_mul c p = c * unat p"

definition f32_mul :: "f32 \<Rightarrow> byte \<Rightarrow> f32" where
  "f32_mul c p = f32_round (exact_mul c p)"

definition f32_add :: "f32 \<Rightarrow> f32 \<Rightarrow> f32" where
  "f32_add a b = f32_round (a + b)"

text \<open>
  \<^verbatim>\<open>fmaf(c, p, a)\<close>: the product is added unrounded, the sum is rounded once. A CUDA
  compiler may contract \<^verbatim>\<open>c * p + a\<close> into it.
\<close>

definition f32_fma :: "f32 \<Rightarrow> byte \<Rightarrow> f32 \<Rightarrow> f32" where
  "f32_fma c p a = f32_round (exact_mul c p + a)"

text \<open>
  The conversion of a \<^verbatim>\<open>float\<close> to \<^verbatim>\<open>unsigned char\<close> truncates; it is undefined when the
  truncated value is not a value of the destination type (devices commonly keep the low
  byte of the truncated value then, but nothing in the program makes them).
\<close>

definition f32_trunc :: "f32 \<Rightarrow> nat" where
  "f32_trunc a = a div 2 ^ 27"

definition f32_to_uchar :: "f32 \<Rightarrow> fault + byte" where
  "f32_to_uchar a = (if f32_trunc a < 256 then Inr (of_nat (f32_trunc a)) else Inl NotRepresentable)"

text \<open>
  The literals \<^verbatim>\<open>0.299f\<close>, \<^verbatim>\<open>0.587f\<close>, \<^verbatim>\<open>0.114f\<close>, \<^verbatim>\<open>1.1f\<close>, \<^verbatim>\<open>1.05f\<close>,
  \<^verbatim>\<open>255.0f\<close> and \<^verbatim>\<open>0.0f\<close> of the source, each as its 24-bit significand times its unit
  in the last place: \<^verbatim>\<open>0.299f\<close> is \<open>10032775 \<sqdot> 2\<^sup>-\<^sup>2\<^sup>5\<close>, and so on.
\<close>

definition c_0_299 :: f32 where "c_0_299 = 10032775 * 2 ^ 2"

definition c_0_587 :: f32 where "c_0_587 = 9848226 * 2 ^ 3"

definition c_0_114 :: f32 where "c_0_114 = 15300821"

definition c_1_1 :: f32 where "c_1_1 = 9227469 * 2 ^ 4"

definition c_1_05 :: f32 where "c_1_05 = 8808038 * 2 ^ 4"

definition c_255 :: f32 where "c_255 = 255 * 2 ^ 27"

definition c_0 :: f32 where "c_0 = 0"

section \<open>The per-pixel computations of the kernels\<close>

text \<open>
  Line 22, \<^verbatim>\<open>gray[idx] = 0.299f * r + 0.587f * g + 0.114f * b\<close>. The expression is
  \<^verbatim>\<open>(0.299f * r + 0.587f * g) + 0.114f * b\<close>. Whether a product is rounded before it is
  added, or fused into the addition, is the compiler's choice: of the inner addition at most
  one product can be fused, and the outer addition can fuse its product. The choice is a
  parameter, and the results below hold for each of the six.
\<close>

datatype fusing = NoFuse | FuseLeft | FuseRight

type_synonym contraction = "fusing \<times> bool"

definition sum_rg :: "fusing \<Rightarrow> byte \<Rightarrow> byte \<Rightarrow> f32" where
  "sum_rg f r g =
     (case f of
        NoFuse \<Rightarrow> f32_add (f32_mul c_0_299 r) (f32_mul c_0_587 g)
      | FuseLeft \<Rightarrow> f32_fma c_0_299 r (f32_mul c_0_587 g)
      | FuseRight \<Rightarrow> f32_fma c_0_587 g (f32_mul c_0_299 r))"

definition luminance :: "contraction \<Rightarrow> byte \<Rightarrow> byte \<Rightarrow> byte \<Rightarrow> f32" where
  "luminance cm r g b =
     (if snd cm then f32_fma c_0_114 b (sum_rg (fst cm) r g)
      else f32_add (sum_rg (fst cm) r g) (f32_mul c_0_114 b))"

definition grayPixel :: "contraction \<Rightarrow> byte \<Rightarrow> byte \<Rightarrow> byte \<Rightarrow> fault + byte" where
  "grayPixel cm r g b = f32_to_uchar (luminance cm r g b)"

text \<open>
  Lines 46 to 50: the shadow branch takes \<^verbatim>\<open>min(255.0f, pixel * 1.1f)\<close>, the highlight
  branch \<^verbatim>\<open>max(0.0f, pixel * 1.05f)\<close>; each is then cast to \<^verbatim>\<open>unsigned char\<close>.
\<close>

definition adjustPixel :: "byte \<Rightarrow> fault + byte" where
  "adjustPixel pixel =
     (if pixel \<le> 128 then f32_to_uchar (min c_255 (f32_mul c_1_1 pixel))
      else f32_to_uchar (max c_0 (f32_mul c_1_05 pixel)))"

text \<open>
  The luminance as the specification words it: \<open>0.299\<sqdot>R + 0.587\<sqdot>G + 0.114\<sqdot>B\<close> over the
  reals, truncated to an integer.
\<close>

definition luminance_spec :: "byte \<Rightarrow> byte \<Rightarrow> byte \<Rightarrow> nat" where
  "luminance_spec r g b = (299 * unat r + 587 * unat g + 114 * unat b) div 1000"

section \<open>Kernels and their launch\<close>

text \<open>
  A kernel is launched on a grid of \<open>gridSize\<close> blocks of \<open>blockSize\<close> threads. Each
  kernel starts with \<^verbatim>\<open>x = blockIdx.x * blockDim.x + threadIdx.x\<close> and the same for \<open>y\<close>
  (lines 13, 14, 28, 29, 40 and 41); \<open>coords\<close> lists these values along one axis, over all
  blocks and the threads of each block, and \<open>threads\<close> pairs the two axes. The threads of a
  launch do not communicate, and each reads and writes the cell of its own index only; the
  model runs them one after the other, each on the buffer the kernel writes, and stops at
  the first fault.
\<close>

definition coords :: "nat \<Rightarrow> nat \<Rightarrow> nat list" where
  "coords gridDim blockDim =
     concat (map (\<lambda>blockIdx. map (\<lambda>threadIdx. blockIdx * blockDim + threadIdx) [0..<blockDim])
       [0..<gridDim])"

definition threads :: "nat \<times> nat \<Rightarrow> nat \<times> nat \<Rightarrow> (int \<times> int) list" where
  "threads gridSize blockSize =
     map (\<lambda>(y, x). (int x, int y))
       (List.product (coords (snd gridSize) (snd blockSize)) (coords (fst gridSize) (fst blockSize)))"

fun run :: "('t \<Rightarrow> buffer \<Rightarrow> fault + buffer) \<Rightarrow> 't list \<Rightarrow> buffer \<Rightarrow> fault + buffer" where
  "run k [] buf = Inr buf"
| "run k (t # ts) buf = bnd (k t buf) (run k ts)"

definition launch ::
  "(int \<times> int \<Rightarrow> buffer \<Rightarrow> fault + buffer) \<Rightarrow> nat \<times> nat \<Rightarrow> nat \<times> nat \<Rightarrow> buffer \<Rightarrow> fault + buffer"
  where "launch kern gridSize blockSize buf = run kern (threads gridSize blockSize) buf"

text \<open>
  The three kernels, for the thread at \<open>(x, y)\<close>. The buffers a kernel only reads are
  arguments; the buffer it writes is threaded through. In \<open>main\<close> the device buffers are
  separate allocations, so a kernel's source and destination never overlap.
\<close>

definition rgbToGrayKernel ::
  "contraction \<Rightarrow> buffer \<Rightarrow> int \<Rightarrow> int \<Rightarrow> int \<times> int \<Rightarrow> buffer \<Rightarrow> fault + buffer" where
  "rgbToGrayKernel cm rgb width height t gray =
     (let x = fst t; y = snd t; idx = y * width + x in
      if x < width \<and> y < height then
        (let rgbIdx = idx * 3 in
         bnd (rd rgb rgbIdx) (\<lambda>r.
         bnd (rd rgb (rgbIdx + 1)) (\<lambda>g.
         bnd (rd rgb (rgbIdx + 2)) (\<lambda>b.
         bnd (grayPixel cm r g b) (\<lambda>v.
         wr gray idx v)))))
      else Inr gray)"

definition cropKernel ::
  "buffer \<Rightarrow> int \<Rightarrow> int \<Rightarrow> int \<Rightarrow> int \<Rightarrow> int \<Rightarrow> int \<Rightarrow> int \<times> int \<Rightarrow> buffer \<Rightarrow> fault + buffer"
  where
  "cropKernel src srcWidth srcHeight dstWidth dstHeight offsetX offsetY t dst =
     (let x = fst t; y = snd t in
      if x < dstWidth \<and> y < dstHeight then
        (let srcIdx = (y + offsetY) * srcWidth + (x + offsetX);
             dstIdx = y * dstWidth + x in
         bnd (rd src srcIdx) (\<lambda>v. wr dst dstIdx v))
      else Inr dst)"

definition adjustShadowsHighlightsKernel ::
  "int \<Rightarrow> int \<Rightarrow> int \<times> int \<Rightarrow> buffer \<Rightarrow> fault + buffer" where
  "adjustShadowsHighlightsKernel width height t img =
     (let x = fst t; y = snd t; idx = y * width + x in
      if x < width \<and> y < height then
        bnd (rd img idx) (\<lambda>pixel.
        bnd (adjustPixel pixel) (\<lambda>v.
        wr img idx v))
      else Inr img)"

text \<open>The pixel at \<open>(x, y)\<close> of a row-major single-channel plane of the given width.\<close>

definition pixel_at :: "buffer \<Rightarrow> int \<Rightarrow> int \<Rightarrow> int \<Rightarrow> byte" where
  "pixel_at buf width x y = buf ! nat (y * width + x)"



section \<open>The host program\<close>

text \<open>
  The arithmetic of the host is that of \<^verbatim>\<open>int\<close>, 32 bits wide. An overflowing signed
  product is undefined in C++; the compilers at hand wrap it around, and so does the model.
\<close>

definition int32 :: "int \<Rightarrow> int" where
  "int32 n = (n + 2 ^ 31) mod 2 ^ 32 - 2 ^ 31"

definition INT_MAX :: int where "INT_MAX = 2 ^ 31 - 1"

text \<open>Line 32, the source index as a thread computes it in \<^verbatim>\<open>int\<close>.\<close>

definition srcIdx_int :: "int \<Rightarrow> int \<Rightarrow> int \<Rightarrow> int \<Rightarrow> int \<Rightarrow> int" where
  "srcIdx_int x y offsetX offsetY srcWidth =
     int32 (int32 (int32 (y + offsetY) * srcWidth) + int32 (x + offsetX))"

text \<open>
  Lines 129 to 134 and the last four arguments of the \<^verbatim>\<open>cropKernel\<close> launch of line 142:
  \<open>(dstWidth, dstHeight, offsetX, offsetY)\<close>. The difference of the two sides is not
  negative, so C's division and \<open>div\<close> agree.
\<close>

definition cropWindow :: "int \<Rightarrow> int \<Rightarrow> int \<times> int \<times> int \<times> int" where
  "cropWindow width height =
     (let shorterSide = min width height;
          longerSide = max width height;
          offset = (longerSide - shorterSide) div 2;
          dstWidth = shorterSide;
          dstHeight = shorterSide
      in (dstWidth, dstHeight, offset, 0))"

text \<open>
  \<^verbatim>\<open>cudaMalloc\<close> returns memory that holds whatever was there: \<open>junk\<close>. The copies
  between host and device (\<^verbatim>\<open>cudaMemcpy\<close>) leave the bytes as they are.
\<close>

definition cudaMalloc :: "(nat \<Rightarrow> byte) \<Rightarrow> int \<Rightarrow> buffer" where
  "cudaMalloc junk n = map junk [0..<nat n]"

text \<open>
  Lines 114 to 147, the work of the device on one loaded image when every call of the
  host succeeds: the three launches, all on the grid computed at line 124 from the size of
  the source, in \<^verbatim>\<open>unsigned\<close> arithmetic. The sizes of the device buffers are the \<^verbatim>\<open>int\<close>
  products of lines 119 and 139. The result is the size and the bytes handed to
  \<^verbatim>\<open>savePGM\<close>.
\<close>

definition processImage ::
  "contraction \<Rightarrow> (nat \<Rightarrow> byte) \<Rightarrow> int \<Rightarrow> int \<Rightarrow> buffer \<Rightarrow> fault + int \<times> int \<times> buffer" where
  "processImage cm junk width height h_rgb =
     (let blockSize = (16, 16);
          gridSize =
            (unat ((word_of_int width + of_nat (fst blockSize) - 1 :: 32 word)
               div of_nat (fst blockSize)),
             unat ((word_of_int height + of_nat (snd blockSize) - 1 :: 32 word)
               div of_nat (snd blockSize)));
          (dstWidth, dstHeight, offsetX, offsetY) = cropWindow width height
      in
        bnd (launch (rgbToGrayKernel cm h_rgb width height) gridSize blockSize
               (cudaMalloc junk (int32 (width * height)))) (\<lambda>d_gray.
        bnd (launch (cropKernel d_gray width height dstWidth dstHeight offsetX offsetY)
               gridSize blockSize (cudaMalloc junk (int32 (dstWidth * dstHeight)))) (\<lambda>d_dst.
        bnd (launch (adjustShadowsHighlightsKernel dstWidth dstHeight) gridSize blockSize d_dst)
          (\<lambda>h_dst. Inr (dstWidth, dstHeight, h_dst)))))"

subsection \<open>Files, streams and the exit status\<close>

















subsection \<open>The errors of a batch, as the specification lists them\<close>










section \<open>Properties of the arithmetic\<close>

subsection \<open>The literals\<close>

text \<open>
  Each constant is the \<^verbatim>\<open>float\<close> nearest to its decimal literal: its significand has 24
  bits, and it is within half a unit in the last place of the literal.
\<close>

lemma c_0_299_nearest:
  "sigbits 10032775 = 24 \<and> 2 * \<bar>int c_0_299 * 1000 - 299 * 2 ^ 27\<bar> \<le> 1000 * 2 ^ 2"
  by (simp add: c_0_299_def sigbits.simps)

lemma c_0_587_nearest:
  "sigbits 9848226 = 24 \<and> 2 * \<bar>int c_0_587 * 1000 - 587 * 2 ^ 27\<bar> \<le> 1000 * 2 ^ 3"
  by (simp add: c_0_587_def sigbits.simps)

lemma c_0_114_nearest:
  "sigbits 15300821 = 24 \<and> 2 * \<bar>int c_0_114 * 1000 - 114 * 2 ^ 27\<bar> \<le> 1000 * 2 ^ 0"
  by (simp add: c_0_114_def sigbits.simps)

lemma c_1_1_nearest:
  "sigbits 9227469 = 24 \<and> 2 * \<bar>int c_1_1 * 10 - 11 * 2 ^ 27\<bar> \<le> 10 * 2 ^ 4"
  by (simp add: c_1_1_def sigbits.simps)

lemma c_1_05_nearest:
  "sigbits 8808038 = 24 \<and> 2 * \<bar>int c_1_05 * 100 - 105 * 2 ^ 27\<bar> \<le> 100 * 2 ^ 4"
  by (simp add: c_1_05_def sigbits.simps)

subsection \<open>Rounding\<close>

lemma sigbits_le: "n < 2 ^ k \<Longrightarrow> sigbits n \<le> k"
proof (induction k arbitrary: n)
  case 0
  then show ?case by (simp add: sigbits.simps)
next
  case (Suc k)
  show ?case
  proof (cases "n = 0")
    case True
    then show ?thesis by (simp add: sigbits.simps)
  next
    case False
    from Suc.prems have "n div 2 < 2 ^ k" by simp
    then have "sigbits (n div 2) \<le> k" by (rule Suc.IH)
    with False show ?thesis by (subst sigbits.simps) simp
  qed
qed

lemma round_to_multiple:
  fixes n s :: nat
  assumes s: "0 < s"
  defines "d \<equiv> 2 ^ s" and "h \<equiv> 2 ^ (s - 1)"
  defines "q \<equiv> n div d" and "r \<equiv> n mod d"
  defines "m \<equiv> (if h < r \<or> (r = h \<and> odd q) then q + 1 else q) * d"
  shows "n \<le> m + h" and "m \<le> n + h"
proof -
  have dh: "d = 2 * h"
    using s unfolding d_def h_def by (cases s) simp_all
  have n: "n = q * d + r"
    unfolding q_def r_def by simp
  have r: "r < d"
    unfolding r_def d_def by simp
  show "n \<le> m + h"
    using n r dh unfolding m_def by (auto simp: algebra_simps)
  show "m \<le> n + h"
    using n r dh unfolding m_def by (auto simp: algebra_simps)
qed

lemma f32_round_within:
  assumes "n < 2 ^ (25 + k)"
  shows "n \<le> f32_round n + 2 ^ k \<and> f32_round n \<le> n + 2 ^ k"
proof (cases "sigbits n \<le> 24")
  case True
  then show ?thesis by (simp add: f32_round_def)
next
  case False
  define s where "s = sigbits n - 24"
  have "sigbits n \<le> 25 + k"
    using assms by (rule sigbits_le)
  then have s: "0 < s" "s - 1 \<le> k"
    using False by (simp_all add: s_def)
  have h: "(2::nat) ^ (s - 1) \<le> 2 ^ k"
    using s(2) by (intro power_increasing) simp_all
  have rn: "f32_round n =
      (if 2 ^ (s - 1) < n mod 2 ^ s \<or> (n mod 2 ^ s = 2 ^ (s - 1) \<and> odd (n div 2 ^ s))
       then n div 2 ^ s + 1 else n div 2 ^ s) * 2 ^ s"
    using False by (simp add: f32_round_def Let_def s_def)
  have "n \<le> f32_round n + 2 ^ (s - 1)" and "f32_round n \<le> n + 2 ^ (s - 1)"
    unfolding rn by (rule round_to_multiple [OF s(1)])+
  with h show ?thesis
    by linarith
qed

lemma f32_round_error:
  assumes "n < 2 ^ 35"
  shows "n \<le> f32_round n + 1024" and "f32_round n \<le> n + 1024"
  using f32_round_within [of n 10] assms by simp_all

lemma f32_round_error_wide:
  assumes "n < 2 ^ 36"
  shows "n \<le> f32_round n + 2048" and "f32_round n \<le> n + 2048"
  using f32_round_within [of n 11] assms by simp_all

subsection \<open>Truncation and bytes\<close>

lemma unat_byte: "unat (p :: byte) \<le> 255"
  using unsigned_less [of p, where 'a = nat] by simp

lemma f32_trunc_ge: "v * 2 ^ 27 \<le> x \<Longrightarrow> v \<le> f32_trunc x"
  by (simp add: f32_trunc_def less_eq_div_iff_mult_less_eq)

lemma f32_trunc_less: "x < v * 2 ^ 27 \<Longrightarrow> f32_trunc x < v"
  by (simp add: f32_trunc_def div_less_iff_less_mult)

lemma byte_le_of_nat: "t < 256 \<Longrightarrow> unat p \<le> t \<Longrightarrow> p \<le> (of_nat t :: byte)"
  by (simp add: word_le_nat_alt unat_of_nat)

subsection \<open>Tone adjustment of one pixel\<close>

lemma adjustPixel_shadow:
  assumes "pixel \<le> 128"
  shows "\<exists>w. adjustPixel pixel = Inr w \<and> pixel \<le> w"
proof -
  define v where "v = unat pixel"
  define x where "x = f32_mul c_1_1 pixel"
  have v: "v \<le> 128"
    using assms by (simp add: v_def word_le_nat_alt)
  have "c_1_1 * v < 2 ^ 35"
    using v by (simp add: c_1_1_def)
  then have "c_1_1 * v \<le> x + 1024"
    unfolding x_def v_def f32_mul_def exact_mul_def by (rule f32_round_error)
  then have "v * 2 ^ 27 \<le> x"
    by (cases "v = 0") (simp_all add: c_1_1_def)
  moreover have "v * 2 ^ 27 \<le> c_255"
    using v by (simp add: c_255_def)
  ultimately have lo: "v * 2 ^ 27 \<le> min c_255 x"
    by simp
  have hi: "min c_255 x < 256 * 2 ^ 27"
    by (simp add: c_255_def min_def)
  define t where "t = f32_trunc (min c_255 x)"
  have t: "t < 256" "v \<le> t"
    unfolding t_def using hi lo by (simp_all add: f32_trunc_less f32_trunc_ge)
  have "adjustPixel pixel = Inr (of_nat t)"
    using assms t(1) by (simp add: adjustPixel_def f32_to_uchar_def t_def x_def)
  moreover have "pixel \<le> (of_nat t :: byte)"
    using t unfolding v_def by (rule byte_le_of_nat)
  ultimately show ?thesis by blast
qed

lemma adjustPixel_highlight:
  assumes "128 < pixel" and "pixel \<le> 243"
  shows "\<exists>w. adjustPixel pixel = Inr w \<and> pixel \<le> w"
proof -
  define v where "v = unat pixel"
  define x where "x = f32_mul c_1_05 pixel"
  have v: "128 < v" "v \<le> 243"
    using assms by (simp_all add: v_def word_le_nat_alt word_less_nat_alt)
  have "c_1_05 * v < 2 ^ 35"
    using v by (simp add: c_1_05_def)
  then have "c_1_05 * v \<le> x + 1024" and "x \<le> c_1_05 * v + 1024"
    unfolding x_def v_def f32_mul_def exact_mul_def by (rule f32_round_error)+
  then have "v * 2 ^ 27 \<le> x" and "x < 256 * 2 ^ 27"
    using v by (simp_all add: c_1_05_def)
  then have lo: "v * 2 ^ 27 \<le> max c_0 x" and hi: "max c_0 x < 256 * 2 ^ 27"
    by (simp_all add: c_0_def)
  define t where "t = f32_trunc (max c_0 x)"
  have t: "t < 256" "v \<le> t"
    unfolding t_def using hi lo by (simp_all add: f32_trunc_less f32_trunc_ge)
  have "\<not> pixel \<le> 128"
    using assms(1) by simp
  then have "adjustPixel pixel = Inr (of_nat t)"
    using t(1) by (simp add: adjustPixel_def f32_to_uchar_def t_def x_def)
  moreover have "pixel \<le> (of_nat t :: byte)"
    using t unfolding v_def by (rule byte_le_of_nat)
  ultimately show ?thesis by blast
qed

lemma adjustPixel_overflow:
  assumes "244 \<le> pixel"
  shows "adjustPixel pixel = Inl NotRepresentable"
proof -
  define v where "v = unat pixel"
  define x where "x = f32_mul c_1_05 pixel"
  have v: "244 \<le> v" "v \<le> 255"
    using assms unat_byte [of pixel] by (simp_all add: v_def word_le_nat_alt)
  have "c_1_05 * v < 2 ^ 36"
    using v by (simp add: c_1_05_def)
  then have "c_1_05 * v \<le> x + 2048"
    unfolding x_def v_def f32_mul_def exact_mul_def by (rule f32_round_error_wide)
  then have "256 * 2 ^ 27 \<le> x"
    using v by (simp add: c_1_05_def)
  then have "256 * 2 ^ 27 \<le> max c_0 x"
    by simp
  then have "256 \<le> f32_trunc (max c_0 x)"
    by (rule f32_trunc_ge)
  moreover have "\<not> pixel \<le> 128"
    using v by (simp add: word_le_nat_alt v_def)
  ultimately show ?thesis
    by (simp add: adjustPixel_def f32_to_uchar_def x_def)
qed


subsection \<open>Luminance of one pixel\<close>

lemma exact_mul_le: "exact_mul c p \<le> c * 255"
  unfolding exact_mul_def using unat_byte [of p] by simp

lemma sum_rg_error:
  fixes r g :: byte and f :: fusing
  defines "p \<equiv> exact_mul c_0_299 r + exact_mul c_0_587 g"
  defines "s \<equiv> sum_rg f r g"
  shows "p \<le> s + 3072" and "s \<le> p + 3072"
proof -
  define p1 where "p1 = exact_mul c_0_299 r"
  define p2 where "p2 = exact_mul c_0_587 g"
  have b1: "p1 \<le> 10233430500" and b2: "p2 \<le> 20090381040"
    using exact_mul_le [of c_0_299 r] exact_mul_le [of c_0_587 g]
    by (simp_all add: p1_def p2_def c_0_299_def c_0_587_def)
  have r1: "p1 \<le> f32_round p1 + 1024" "f32_round p1 \<le> p1 + 1024"
    using b1 by (simp_all add: f32_round_error)
  have r2: "p2 \<le> f32_round p2 + 1024" "f32_round p2 \<le> p2 + 1024"
    using b2 by (simp_all add: f32_round_error)
  have "p1 + p2 \<le> s + 3072 \<and> s \<le> p1 + p2 + 3072"
  proof (cases f)
    case NoFuse
    define a where "a = f32_round p1 + f32_round p2"
    have s: "s = f32_round a"
      using NoFuse by (simp add: s_def sum_rg_def f32_add_def f32_mul_def p1_def p2_def a_def)
    have "a < 2 ^ 35"
      using b1 b2 r1 r2 by (simp add: a_def)
    then have "a \<le> f32_round a + 1024" "f32_round a \<le> a + 1024"
      by (simp_all add: f32_round_error)
    then show ?thesis
      unfolding s using r1 r2 by (simp add: a_def)
  next
    case FuseLeft
    define a where "a = p1 + f32_round p2"
    have s: "s = f32_round a"
      using FuseLeft by (simp add: s_def sum_rg_def f32_fma_def f32_mul_def p1_def p2_def a_def)
    have "a < 2 ^ 35"
      using b1 b2 r2 by (simp add: a_def)
    then have "a \<le> f32_round a + 1024" "f32_round a \<le> a + 1024"
      by (simp_all add: f32_round_error)
    then show ?thesis
      unfolding s using r2 by (simp add: a_def)
  next
    case FuseRight
    define a where "a = p2 + f32_round p1"
    have s: "s = f32_round a"
      using FuseRight by (simp add: s_def sum_rg_def f32_fma_def f32_mul_def p1_def p2_def a_def)
    have "a < 2 ^ 35"
      using b1 b2 r1 by (simp add: a_def)
    then have "a \<le> f32_round a + 1024" "f32_round a \<le> a + 1024"
      by (simp_all add: f32_round_error)
    then show ?thesis
      unfolding s using r1 by (simp add: a_def)
  qed
  then show "p \<le> s + 3072" and "s \<le> p + 3072"
    by (simp_all add: p_def p1_def p2_def)
qed

lemma luminance_error:
  fixes r g b :: byte and cm :: contraction
  defines "e \<equiv> exact_mul c_0_299 r + exact_mul c_0_587 g + exact_mul c_0_114 b"
  shows "e \<le> luminance cm r g b + 5120" and "luminance cm r g b \<le> e + 5120"
proof -
  define p where "p = exact_mul c_0_299 r + exact_mul c_0_587 g"
  define p3 where "p3 = exact_mul c_0_114 b"
  define s where "s = sum_rg (fst cm) r g"
  have s: "p \<le> s + 3072" "s \<le> p + 3072"
    unfolding p_def s_def by (rule sum_rg_error)+
  have bp: "p \<le> 30323811540"
    using exact_mul_le [of c_0_299 r] exact_mul_le [of c_0_587 g]
    by (simp add: p_def c_0_299_def c_0_587_def)
  have b3: "p3 \<le> 3901709355"
    using exact_mul_le [of c_0_114 b] by (simp add: p3_def c_0_114_def)
  have r3: "p3 \<le> f32_round p3 + 1024" "f32_round p3 \<le> p3 + 1024"
    using b3 by (simp_all add: f32_round_error)
  have "p + p3 \<le> luminance cm r g b + 5120 \<and> luminance cm r g b \<le> p + p3 + 5120"
  proof (cases "snd cm")
    case True
    define a where "a = p3 + s"
    have l: "luminance cm r g b = f32_round a"
      using True by (simp add: luminance_def s_def [symmetric] f32_fma_def p3_def a_def)
    have "a < 2 ^ 35"
      using bp b3 s by (simp add: a_def)
    then have "a \<le> f32_round a + 1024" "f32_round a \<le> a + 1024"
      by (simp_all add: f32_round_error)
    then show ?thesis
      unfolding l using s by (simp add: a_def)
  next
    case False
    define a where "a = s + f32_round p3"
    have l: "luminance cm r g b = f32_round a"
      using False
      by (simp add: luminance_def s_def [symmetric] f32_add_def f32_mul_def p3_def a_def)
    have "a < 2 ^ 35"
      using bp b3 s r3 by (simp add: a_def)
    then have "a \<le> f32_round a + 1024" "f32_round a \<le> a + 1024"
      by (simp_all add: f32_round_error)
    then show ?thesis
      unfolding l using s r3 by (simp add: a_def)
  qed
  then show "e \<le> luminance cm r g b + 5120" and "luminance cm r g b \<le> e + 5120"
    by (simp_all add: e_def p_def p3_def)
qed


lemma f32_trunc_ge_pred: "v * 2 ^ 27 \<le> x + 2 ^ 27 \<Longrightarrow> v \<le> f32_trunc x + 1"
proof -
  assume "v * 2 ^ 27 \<le> x + 2 ^ 27"
  then have "v \<le> f32_trunc (x + 2 ^ 27)"
    by (rule f32_trunc_ge)
  then show ?thesis
    by (simp add: f32_trunc_def)
qed

lemma grayPixel_spec:
  fixes r g b :: byte and cm :: contraction
  defines "k \<equiv> 299 * unat r + 587 * unat g + 114 * unat b"
  shows "\<exists>w. grayPixel cm r g b = Inr w \<and>
           (unat w = luminance_spec r g b \<or>
            (k mod 1000 = 0 \<and> unat w + 1 = luminance_spec r g b))"
proof -
  define R G B where "R = unat r" and "G = unat g" and "B = unat b"
  define e where "e = exact_mul c_0_299 r + exact_mul c_0_587 g + exact_mul c_0_114 b"
  define S where "S = luminance cm r g b"
  define q \<rho> where "q = k div 1000" and "\<rho> = k mod 1000"
  have rgb: "R \<le> 255" "G \<le> 255" "B \<le> 255"
    by (simp_all add: R_def G_def B_def unat_byte)
  have k: "k = 299 * R + 587 * G + 114 * B"
    by (simp add: k_def R_def G_def B_def)
  have kq: "k = 1000 * q + \<rho>" and \<rho>: "\<rho> < 1000"
    by (simp_all add: q_def \<rho>_def)
  have e: "1000 * e + 672 * R = k * 2 ^ 27 + 1664 * G + 8 * B"
    by (simp add: e_def k exact_mul_def c_0_299_def c_0_587_def c_0_114_def R_def G_def B_def)
  have S: "e \<le> S + 5120" "S \<le> e + 5120"
    unfolding e_def S_def by (rule luminance_error)+
  have up: "S < (q + 1) * 2 ^ 27"
    using e S rgb kq \<rho> by simp
  then have t_le: "f32_trunc S < q + 1"
    by (rule f32_trunc_less)
  have "q \<le> 255"
    using rgb kq k by simp
  with t_le have t: "f32_trunc S < 256"
    by simp
  then have gp: "grayPixel cm r g b = Inr (of_nat (f32_trunc S))"
    by (simp add: grayPixel_def f32_to_uchar_def S_def)
  have u: "unat (of_nat (f32_trunc S) :: byte) = f32_trunc S"
    using t by (simp add: unat_of_nat)
  have spec: "luminance_spec r g b = q"
    by (simp add: luminance_spec_def q_def k_def)
  show ?thesis
  proof (cases "\<rho> = 0")
    case True
    have "q * 2 ^ 27 \<le> S + 2 ^ 27"
      using e S rgb kq True by simp
    then have "q \<le> f32_trunc S + 1"
      by (rule f32_trunc_ge_pred)
    with t_le have "f32_trunc S = q \<or> f32_trunc S + 1 = q"
      by auto
    with gp u spec True show ?thesis
      by (auto simp: \<rho>_def)
  next
    case False
    have "q * 2 ^ 27 \<le> S"
      using e S rgb kq False by simp
    then have "q \<le> f32_trunc S"
      by (rule f32_trunc_ge)
    with t_le have "f32_trunc S = q"
      by simp
    with gp u spec show ?thesis
      by simp
  qed
qed

section \<open>Properties of a launch\<close>

lemma coords_upt: "coords n b = [0..<n * b]"
proof (induction n)
  case 0
  show ?case by (simp add: coords_def)
next
  case (Suc n)
  have "map (\<lambda>t. n * b + t) [0..<b] = [n * b..<n * b + b]"
    using map_add_upt [of "n * b" b] by (simp add: add.commute)
  moreover have "[0..<n * b + b] = [0..<n * b] @ [n * b..<n * b + b]"
    using upt_add_eq_append [of 0 "n * b" b] by simp
  ultimately show ?case
    using Suc by (simp add: coords_def add.commute)
qed

lemma set_threads:
  "set (threads g b) = {(int x, int y) | x y. x < fst g * fst b \<and> y < snd g * snd b}"
  by (auto simp: threads_def coords_upt image_iff)

lemma distinct_threads: "distinct (threads g b)"
  unfolding threads_def coords_upt
  by (auto simp: distinct_map distinct_product inj_on_def)

lemma run_cellwise:
  assumes "distinct ts" and "inj_on i {t \<in> set ts. P t}" and "length buf0 = n"
    and "\<And>t. t \<in> set ts \<Longrightarrow> P t \<Longrightarrow> i t < n"
    and "\<And>t buf. t \<in> set ts \<Longrightarrow> P t \<Longrightarrow> length buf = n \<Longrightarrow> buf ! i t = buf0 ! i t \<Longrightarrow>
           k t buf = Inr (buf[i t := v t])"
    and "\<And>t buf. t \<in> set ts \<Longrightarrow> \<not> P t \<Longrightarrow> k t buf = Inr buf"
  shows "\<exists>buf'. run k ts buf0 = Inr buf' \<and> length buf' = n \<and>
           (\<forall>t \<in> set ts. P t \<longrightarrow> buf' ! i t = v t) \<and>
           (\<forall>j < n. j \<notin> i ` {t \<in> set ts. P t} \<longrightarrow> buf' ! j = buf0 ! j)"
  using assms
proof (induction ts arbitrary: buf0)
  case Nil
  then show ?case by simp
next
  case (Cons t ts)
  have dist: "distinct ts" and t_new: "t \<notin> set ts"
    using Cons.prems(1) by simp_all
  have inj: "inj_on i {u \<in> set ts. P u}"
    by (rule inj_on_subset [OF Cons.prems(2)]) auto
  have other: "i u \<noteq> i t" if "u \<in> set ts" "P u" "P t" for u
    using inj_onD [OF Cons.prems(2), of u t] that t_new by auto
  show ?case
  proof (cases "P t")
    case False
    then have step: "k t buf0 = Inr buf0"
      using Cons.prems(6) by simp
    have "\<exists>buf'. run k ts buf0 = Inr buf' \<and> length buf' = n \<and>
           (\<forall>u \<in> set ts. P u \<longrightarrow> buf' ! i u = v u) \<and>
           (\<forall>j < n. j \<notin> i ` {u \<in> set ts. P u} \<longrightarrow> buf' ! j = buf0 ! j)"
      using dist inj Cons.prems(3) Cons.prems(4) Cons.prems(5) Cons.prems(6)
      by (intro Cons.IH) simp_all
    then obtain buf' where r: "run k ts buf0 = Inr buf'" "length buf' = n"
        "\<forall>u \<in> set ts. P u \<longrightarrow> buf' ! i u = v u"
        "\<forall>j < n. j \<notin> i ` {u \<in> set ts. P u} \<longrightarrow> buf' ! j = buf0 ! j"
      by blast
    have "i ` {u \<in> set (t # ts). P u} = i ` {u \<in> set ts. P u}"
      using False by auto
    with r step False show ?thesis
      by (simp add: bnd_def)
  next
    case True
    define buf1 where "buf1 = buf0[i t := v t]"
    have it: "i t < n"
      using Cons.prems(4) True by simp
    have step: "k t buf0 = Inr buf1"
      unfolding buf1_def using Cons.prems(3) True by (intro Cons.prems(5)) simp_all
    have len1: "length buf1 = n"
      using Cons.prems(3) by (simp add: buf1_def)
    have same: "buf1 ! i u = buf0 ! i u" if "u \<in> set ts" "P u" for u
      using other [OF that True] by (simp add: buf1_def)
    have "\<exists>buf'. run k ts buf1 = Inr buf' \<and> length buf' = n \<and>
           (\<forall>u \<in> set ts. P u \<longrightarrow> buf' ! i u = v u) \<and>
           (\<forall>j < n. j \<notin> i ` {u \<in> set ts. P u} \<longrightarrow> buf' ! j = buf1 ! j)"
    proof (intro Cons.IH [OF dist inj len1])
      show "i u < n" if "u \<in> set ts" "P u" for u
        using that Cons.prems(4) by simp
      show "k u buf = Inr (buf[i u := v u])"
        if "u \<in> set ts" "P u" "length buf = n" "buf ! i u = buf1 ! i u" for u buf
        using that same [of u] by (intro Cons.prems(5)) simp_all
      show "k u buf = Inr buf" if "u \<in> set ts" "\<not> P u" for u buf
        using that Cons.prems(6) by simp
    qed
    then obtain buf' where r: "run k ts buf1 = Inr buf'" "length buf' = n"
        "\<forall>u \<in> set ts. P u \<longrightarrow> buf' ! i u = v u"
        "\<forall>j < n. j \<notin> i ` {u \<in> set ts. P u} \<longrightarrow> buf' ! j = buf1 ! j"
      by blast
    have "i t \<notin> i ` {u \<in> set ts. P u}"
      using other True by force
    with r(4) it have at_t: "buf' ! i t = v t"
      using Cons.prems(3) by (simp add: buf1_def)
    have frame: "buf' ! j = buf0 ! j" if "j < n" "j \<notin> i ` {u \<in> set (t # ts). P u}" for j
    proof -
      have "j \<noteq> i t" and "j \<notin> i ` {u \<in> set ts. P u}"
        using that(2) True by auto
      with r(4) that(1) show ?thesis
        by (simp add: buf1_def)
    qed
    from step r(1) r(2) r(3) at_t frame show ?thesis
      by (simp add: bnd_def)
  qed
qed

lemma idx_bound:
  fixes x y w h :: int
  assumes "0 \<le> x" "x < w" "0 \<le> y" "y < h"
  shows "0 \<le> y * w + x" and "y * w + x < w * h"
proof -
  show "0 \<le> y * w + x"
    using assms by simp
  have "y * w + x < (y + 1) * w"
    using assms by (simp add: algebra_simps)
  also have "\<dots> \<le> h * w"
    using assms by (intro mult_right_mono) simp_all
  finally show "y * w + x < w * h"
    by (simp add: mult.commute)
qed

lemma idx_div_mod:
  fixes x y w :: int
  assumes "0 \<le> x" "x < w"
  shows "(y * w + x) div w = y" and "(y * w + x) mod w = x"
  using assms by simp_all

lemma idx_inj:
  fixes x y x' y' w :: int
  assumes "0 \<le> x" "x < w" "0 \<le> x'" "x' < w" "y * w + x = y' * w + x'"
  shows "x = x' \<and> y = y'"
proof -
  have "(y * w + x) div w = (y' * w + x') div w" "(y * w + x) mod w = (y' * w + x') mod w"
    using assms(5) by simp_all
  then show ?thesis
    using assms(1-4) by (simp add: idx_div_mod)
qed

lemma launch_plane:
  fixes width height :: int
  assumes len: "length buf0 = nat (width * height)"
    and cover: "width \<le> int (fst g * fst b)" "height \<le> int (snd g * snd b)"
    and upd: "\<And>x y buf. 0 \<le> x \<Longrightarrow> x < width \<Longrightarrow> 0 \<le> y \<Longrightarrow> y < height \<Longrightarrow>
           length buf = length buf0 \<Longrightarrow> buf ! nat (y * width + x) = buf0 ! nat (y * width + x) \<Longrightarrow>
           k (x, y) buf = Inr (buf[nat (y * width + x) := v x y])"
    and skip: "\<And>x y buf. \<not> (x < width \<and> y < height) \<Longrightarrow> k (x, y) buf = Inr buf"
  shows "\<exists>buf'. launch k g b buf0 = Inr buf' \<and> length buf' = nat (width * height) \<and>
           (\<forall>x y. 0 \<le> x \<and> x < width \<and> 0 \<le> y \<and> y < height \<longrightarrow>
              buf' ! nat (y * width + x) = v x y)"
proof -
  define ts where "ts = threads g b"
  define P where "P = (\<lambda>t :: int \<times> int. fst t < width \<and> snd t < height)"
  define i where "i = (\<lambda>t :: int \<times> int. nat (snd t * width + fst t))"
  have nonneg: "0 \<le> fst t \<and> 0 \<le> snd t" if "t \<in> set ts" for t
    using that by (auto simp: ts_def set_threads)
  have inj: "inj_on i {t \<in> set ts. P t}"
  proof (rule inj_onI)
    fix s t assume s: "s \<in> {t \<in> set ts. P t}" and t: "t \<in> {t \<in> set ts. P t}" and eq: "i s = i t"
    have "0 \<le> snd s * width + fst s" "0 \<le> snd t * width + fst t"
      using nonneg [of s] nonneg [of t] s t by (simp_all add: P_def)
    then have "snd s * width + fst s = snd t * width + fst t"
      using eq by (simp add: i_def eq_nat_nat_iff)
    then have "fst s = fst t \<and> snd s = snd t"
      using nonneg [of s] nonneg [of t] s t by (intro idx_inj) (simp_all add: P_def)
    then show "s = t"
      by (simp add: prod_eq_iff)
  qed
  have bound: "i t < nat (width * height)" if "t \<in> set ts" "P t" for t
    using idx_bound [of "fst t" width "snd t" height] nonneg [OF that(1)] that(2)
    by (simp add: i_def P_def)
  have "\<exists>buf'. run k ts buf0 = Inr buf' \<and> length buf' = nat (width * height) \<and>
           (\<forall>t \<in> set ts. P t \<longrightarrow> buf' ! i t = v (fst t) (snd t)) \<and>
           (\<forall>j < nat (width * height). j \<notin> i ` {t \<in> set ts. P t} \<longrightarrow> buf' ! j = buf0 ! j)"
  proof (rule run_cellwise [where P = P and i = i])
    show "distinct ts"
      by (simp add: ts_def distinct_threads)
    show "inj_on i {t \<in> set ts. P t}"
      by (rule inj)
    show "length buf0 = nat (width * height)"
      by (rule len)
    show "i t < nat (width * height)" if "t \<in> set ts" "P t" for t
      using that by (rule bound)
    show "k t buf = Inr (buf[i t := v (fst t) (snd t)])"
      if "t \<in> set ts" "P t" "length buf = nat (width * height)" "buf ! i t = buf0 ! i t" for t buf
      using upd [of "fst t" "snd t" buf] that nonneg [of t] len by (simp add: P_def i_def)
    show "k t buf = Inr buf" if "t \<in> set ts" "\<not> P t" for t buf
      using skip [of "fst t" "snd t" buf] that by (simp add: P_def)
  qed
  then obtain buf' where r: "run k ts buf0 = Inr buf'" "length buf' = nat (width * height)"
      "\<forall>t \<in> set ts. P t \<longrightarrow> buf' ! i t = v (fst t) (snd t)"
    by blast
  have "buf' ! nat (y * width + x) = v x y" if "0 \<le> x" "x < width" "0 \<le> y" "y < height" for x y
  proof -
    have "x < int (fst g * fst b)" "y < int (snd g * snd b)"
      using that cover by linarith+
    then have "nat x < fst g * fst b" "nat y < snd g * snd b"
      using that by (simp_all only: nat_less_iff)
    then have "(int (nat x), int (nat y)) \<in> set ts"
      unfolding ts_def set_threads by blast
    then have "(x, y) \<in> set ts"
      using that by simp
    with r(3) that show ?thesis
      by (auto simp: P_def i_def)
  qed
  with r(1) r(2) show ?thesis
    by (auto simp: launch_def ts_def)
qed

subsection \<open>The three kernels on a whole plane\<close>

lemma rd_in: "0 \<le> i \<Longrightarrow> i < int (length buf) \<Longrightarrow> rd buf i = Inr (buf ! nat i)"
  by (simp add: rd_def)

lemma wr_in: "0 \<le> i \<Longrightarrow> i < int (length buf) \<Longrightarrow> wr buf i v = Inr (buf[nat i := v])"
  by (simp add: wr_def)

lemma bnd_Inr [simp]: "bnd (Inr v) f = f v"
  by (simp add: bnd_def)

lemma bnd_Inl [simp]: "bnd (Inl e) f = Inl e"
  by (simp add: bnd_def)

lemma int_length_plane:
  fixes w h :: int
  assumes "length buf = nat (w * h)" "0 \<le> i" "i < w * h"
  shows "i < int (length buf)"
  using assms by simp

lemma cropKernel_launch:
  assumes len: "length dst0 = nat (dstWidth * dstHeight)"
    and cover: "dstWidth \<le> int (fst g * fst b)" "dstHeight \<le> int (snd g * snd b)"
    and reads: "\<And>x y. 0 \<le> x \<Longrightarrow> x < dstWidth \<Longrightarrow> 0 \<le> y \<Longrightarrow> y < dstHeight \<Longrightarrow>
           0 \<le> (y + offsetY) * srcWidth + (x + offsetX) \<and>
           (y + offsetY) * srcWidth + (x + offsetX) < int (length src)"
  shows "\<exists>dst. launch (cropKernel src srcWidth srcHeight dstWidth dstHeight offsetX offsetY) g b dst0
             = Inr dst \<and>
           length dst = nat (dstWidth * dstHeight) \<and>
           (\<forall>x y. 0 \<le> x \<and> x < dstWidth \<and> 0 \<le> y \<and> y < dstHeight \<longrightarrow>
              pixel_at dst dstWidth x y = pixel_at src srcWidth (x + offsetX) (y + offsetY))"
  unfolding pixel_at_def
proof (rule launch_plane [OF len cover])
  fix x y :: int and buf :: buffer
  assume xy: "0 \<le> x" "x < dstWidth" "0 \<le> y" "y < dstHeight" and l: "length buf = length dst0"
  have src: "rd src ((y + offsetY) * srcWidth + (x + offsetX))
      = Inr (src ! nat ((y + offsetY) * srcWidth + (x + offsetX)))"
    using reads [OF xy] by (intro rd_in) simp_all
  have "y * dstWidth + x < int (length buf)"
    using idx_bound [OF xy] l len by (intro int_length_plane [of _ dstWidth dstHeight]) simp_all
  then have dst: "wr buf (y * dstWidth + x) v = Inr (buf[nat (y * dstWidth + x) := v])" for v
    using idx_bound(1) [OF xy] by (intro wr_in) simp_all
  show "cropKernel src srcWidth srcHeight dstWidth dstHeight offsetX offsetY (x, y) buf
      = Inr (buf[nat (y * dstWidth + x) := src ! nat ((y + offsetY) * srcWidth + (x + offsetX))])"
    using xy src dst by (simp add: cropKernel_def)
next
  fix x y :: int and buf :: buffer
  assume "\<not> (x < dstWidth \<and> y < dstHeight)"
  then show "cropKernel src srcWidth srcHeight dstWidth dstHeight offsetX offsetY (x, y) buf = Inr buf"
    by (auto simp: cropKernel_def)
qed

lemma grayPixel_total: "\<exists>w. grayPixel cm r g b = Inr w"
  using grayPixel_spec [of cm r g b] by blast

lemma rgb_index:
  fixes x y w h :: int
  assumes "0 \<le> x" "x < w" "0 \<le> y" "y < h" "length rgb = nat (w * h * 3)" "0 \<le> c" "c < 3"
  shows "0 \<le> (y * w + x) * 3 + c" and "(y * w + x) * 3 + c < int (length rgb)"
proof -
  define i n where "i = y * w + x" and "n = w * h"
  have i: "0 \<le> i" "i < n"
    unfolding i_def n_def using assms(1-4) by (rule idx_bound)+
  have "length rgb = nat (n * 3)"
    using assms(5) by (simp add: n_def)
  then have l: "int (length rgb) = n * 3"
    using i by simp
  have "0 \<le> i * 3 + c" and "i * 3 + c < int (length rgb)"
    using i l assms(6,7) by simp_all
  then show "0 \<le> (y * w + x) * 3 + c" and "(y * w + x) * 3 + c < int (length rgb)"
    by (simp_all only: i_def)
qed

lemma rgbToGrayKernel_launch:
  assumes rgb: "length rgb = nat (width * height * 3)"
    and len: "length gray0 = nat (width * height)"
    and cover: "width \<le> int (fst g * fst b)" "height \<le> int (snd g * snd b)"
  shows "\<exists>gray. launch (rgbToGrayKernel cm rgb width height) g b gray0 = Inr gray \<and>
           length gray = nat (width * height) \<and>
           (\<forall>x y. 0 \<le> x \<and> x < width \<and> 0 \<le> y \<and> y < height \<longrightarrow>
              grayPixel cm (rgb ! nat ((y * width + x) * 3)) (rgb ! nat ((y * width + x) * 3 + 1))
                (rgb ! nat ((y * width + x) * 3 + 2)) = Inr (pixel_at gray width x y))"
proof -
  define v where "v = (\<lambda>x y. projr (grayPixel cm (rgb ! nat ((y * width + x) * 3))
      (rgb ! nat ((y * width + x) * 3 + 1)) (rgb ! nat ((y * width + x) * 3 + 2))))"
  have v: "grayPixel cm (rgb ! nat ((y * width + x) * 3)) (rgb ! nat ((y * width + x) * 3 + 1))
      (rgb ! nat ((y * width + x) * 3 + 2)) = Inr (v x y)" for x y
    using grayPixel_total [of cm "rgb ! nat ((y * width + x) * 3)"
        "rgb ! nat ((y * width + x) * 3 + 1)" "rgb ! nat ((y * width + x) * 3 + 2)"]
    by (auto simp: v_def)
  have "\<exists>gray. launch (rgbToGrayKernel cm rgb width height) g b gray0 = Inr gray \<and>
           length gray = nat (width * height) \<and>
           (\<forall>x y. 0 \<le> x \<and> x < width \<and> 0 \<le> y \<and> y < height \<longrightarrow>
              gray ! nat (y * width + x) = v x y)"
  proof (rule launch_plane [OF len cover])
    fix x y :: int and buf :: buffer
    assume xy: "0 \<le> x" "x < width" "0 \<le> y" "y < height" and l: "length buf = length gray0"
    have r: "rd rgb ((y * width + x) * 3) = Inr (rgb ! nat ((y * width + x) * 3))"
      using rgb_index [OF xy rgb, of 0] by (intro rd_in) simp_all
    have g: "rd rgb ((y * width + x) * 3 + 1) = Inr (rgb ! nat ((y * width + x) * 3 + 1))"
      using rgb_index [OF xy rgb, of 1] by (intro rd_in) simp_all
    have b: "rd rgb ((y * width + x) * 3 + 2) = Inr (rgb ! nat ((y * width + x) * 3 + 2))"
      using rgb_index [OF xy rgb, of 2] by (intro rd_in) simp_all
    have "y * width + x < int (length buf)"
      using idx_bound [OF xy] l len by (intro int_length_plane [of _ width height]) simp_all
    then have w: "wr buf (y * width + x) u = Inr (buf[nat (y * width + x) := u])" for u
      using idx_bound(1) [OF xy] by (intro wr_in) simp_all
    show "rgbToGrayKernel cm rgb width height (x, y) buf = Inr (buf[nat (y * width + x) := v x y])"
      using xy r g b w v [of y x] by (simp add: rgbToGrayKernel_def Let_def)
  next
    fix x y :: int and buf :: buffer
    assume "\<not> (x < width \<and> y < height)"
    then show "rgbToGrayKernel cm rgb width height (x, y) buf = Inr buf"
      by (auto simp: rgbToGrayKernel_def Let_def)
  qed
  then show ?thesis
    using v by (auto simp: pixel_at_def)
qed

lemma adjustPixel_total:
  assumes "pixel \<le> 243"
  shows "\<exists>w. adjustPixel pixel = Inr w \<and> pixel \<le> w"
proof (cases "pixel \<le> 128")
  case True
  then show ?thesis by (rule adjustPixel_shadow)
next
  case False
  then have "128 < pixel" by simp
  then show ?thesis using assms by (rule adjustPixel_highlight)
qed

lemma adjustKernel_launch:
  assumes len: "length img0 = nat (width * height)"
    and cover: "width \<le> int (fst g * fst b)" "height \<le> int (snd g * snd b)"
    and dark: "\<And>j. j < length img0 \<Longrightarrow> img0 ! j \<le> 243"
  shows "\<exists>img. launch (adjustShadowsHighlightsKernel width height) g b img0 = Inr img \<and>
           length img = nat (width * height) \<and>
           (\<forall>x y. 0 \<le> x \<and> x < width \<and> 0 \<le> y \<and> y < height \<longrightarrow>
              adjustPixel (pixel_at img0 width x y) = Inr (pixel_at img width x y) \<and>
              pixel_at img0 width x y \<le> pixel_at img width x y)"
proof -
  define v where "v = (\<lambda>x y. projr (adjustPixel (img0 ! nat (y * width + x))))"
  have v: "adjustPixel (img0 ! nat (y * width + x)) = Inr (v x y) \<and> img0 ! nat (y * width + x) \<le> v x y"
    if "0 \<le> x" "x < width" "0 \<le> y" "y < height" for x y
  proof -
    have "nat (y * width + x) < length img0"
      using idx_bound [OF that] len by simp
    then have "img0 ! nat (y * width + x) \<le> 243"
      by (rule dark)
    then show ?thesis
      using adjustPixel_total [of "img0 ! nat (y * width + x)"] by (auto simp: v_def)
  qed
  have "\<exists>img. launch (adjustShadowsHighlightsKernel width height) g b img0 = Inr img \<and>
           length img = nat (width * height) \<and>
           (\<forall>x y. 0 \<le> x \<and> x < width \<and> 0 \<le> y \<and> y < height \<longrightarrow>
              img ! nat (y * width + x) = v x y)"
  proof (rule launch_plane [OF len cover])
    fix x y :: int and buf :: buffer
    assume xy: "0 \<le> x" "x < width" "0 \<le> y" "y < height" and l: "length buf = length img0"
      and same: "buf ! nat (y * width + x) = img0 ! nat (y * width + x)"
    have i: "y * width + x < int (length buf)"
      using idx_bound [OF xy] l len by (intro int_length_plane [of _ width height]) simp_all
    then have r: "rd buf (y * width + x) = Inr (img0 ! nat (y * width + x))"
      using idx_bound(1) [OF xy] same by (simp add: rd_in)
    have w: "wr buf (y * width + x) u = Inr (buf[nat (y * width + x) := u])" for u
      using i idx_bound(1) [OF xy] by (intro wr_in) simp_all
    show "adjustShadowsHighlightsKernel width height (x, y) buf
        = Inr (buf[nat (y * width + x) := v x y])"
      using xy r w v [OF xy] by (simp add: adjustShadowsHighlightsKernel_def Let_def)
  next
    fix x y :: int and buf :: buffer
    assume "\<not> (x < width \<and> y < height)"
    then show "adjustShadowsHighlightsKernel width height (x, y) buf = Inr buf"
      by (auto simp: adjustShadowsHighlightsKernel_def Let_def)
  qed
  then show ?thesis
    using v by (auto simp: pixel_at_def)
qed

lemma list_of_nths:
  assumes "length xs = n"
  shows "xs = map ((!) xs) [0..<n]"
  unfolding assms [symmetric] by (rule map_nth [symmetric])

section \<open>The tone adjuster and the colour reducer on single pixels\<close>

lemmas f32_eval =
  f32_to_uchar_def f32_trunc_def f32_mul_def f32_add_def f32_fma_def exact_mul_def
  f32_round_def sigbits.simps Let_def
  c_0_299_def c_0_587_def c_0_114_def c_1_1_def c_1_05_def c_255_def c_0_def

lemma threads_first:
  assumes "0 < fst g * fst b" "0 < snd g * snd b"
  shows "\<exists>ts. threads g b = (0, 0) # ts"
proof -
  obtain xs where xs: "[0..<fst g * fst b] = 0 # xs"
    using assms(1) by (auto simp: upt_conv_Cons)
  obtain ys where ys: "[0..<snd g * snd b] = 0 # ys"
    using assms(2) by (auto simp: upt_conv_Cons)
  show ?thesis
    by (simp add: threads_def coords_upt xs ys)
qed

lemma launch_first_fault:
  assumes "0 < fst g * fst b" "0 < snd g * snd b" "k (0, 0) buf = Inl e"
  shows "launch k g b buf = Inl e"
proof -
  obtain ts where "threads g b = (0, 0) # ts"
    using threads_first [OF assms(1,2)] by blast
  then show ?thesis
    using assms(3) by (simp add: launch_def)
qed

text \<open>
  C5. The boundary of the tone adjuster is inclusive on the shadow side: the pixel 128 takes
  the shadow branch and becomes 140, the truncation of \<open>128 \<times> 1.1\<close>; the pixel 129 takes
  the highlight branch and becomes 135, the truncation of \<open>129 \<times> 1.05\<close>.
\<close>

theorem tone_boundary_128_129:
  "adjustPixel 128 = f32_to_uchar (min c_255 (f32_mul c_1_1 128)) \<and>
   adjustPixel 128 = Inr 140 \<and>
   adjustPixel 129 = f32_to_uchar (max c_0 (f32_mul c_1_05 129)) \<and>
   adjustPixel 129 = Inr 135 \<and>
   launch (adjustShadowsHighlightsKernel 2 1) (1, 1) (16, 16) [128, 129] = Inr [140, 135]"
proof (intro conjI)
  show p: "adjustPixel 128 = Inr 140" "adjustPixel 129 = Inr 135"
    and "adjustPixel 128 = f32_to_uchar (min c_255 (f32_mul c_1_1 128))"
    and "adjustPixel 129 = f32_to_uchar (max c_0 (f32_mul c_1_05 129))"
    by (simp_all add: adjustPixel_def f32_eval)
  have dark: "[128, 129 :: byte] ! j \<le> 243" if "j < length [128, 129 :: byte]" for j
  proof (cases j)
    case 0
    then show ?thesis by simp
  next
    case (Suc k)
    with that have "k = 0" by simp
    with Suc show ?thesis by simp
  qed
  have "\<exists>img. launch (adjustShadowsHighlightsKernel 2 1) (1, 1) (16, 16) [128, 129] = Inr img \<and>
      length img = nat (2 * 1) \<and>
      (\<forall>x y. 0 \<le> x \<and> x < 2 \<and> 0 \<le> y \<and> y < 1 \<longrightarrow>
         adjustPixel (pixel_at [128, 129] 2 x y) = Inr (pixel_at img 2 x y) \<and>
         pixel_at [128, 129] 2 x y \<le> pixel_at img 2 x y)"
    by (rule adjustKernel_launch [OF _ _ _ dark]) simp_all
  then obtain img where img:
      "launch (adjustShadowsHighlightsKernel 2 1) (1, 1) (16, 16) [128, 129] = Inr img"
      "length img = 2"
      "\<forall>x y. 0 \<le> x \<and> x < 2 \<and> 0 \<le> y \<and> y < 1 \<longrightarrow>
         adjustPixel (pixel_at [128, 129] 2 x y) = Inr (pixel_at img 2 x y) \<and>
         pixel_at [128, 129] 2 x y \<le> pixel_at img 2 x y"
    by auto
  have "img ! 0 = 140" "img ! 1 = 135"
    using img(3) [rule_format, of 0 0] img(3) [rule_format, of 1 0] p
    by (simp_all add: pixel_at_def)
  then have "img = [140, 135]"
    using list_of_nths [OF img(2)] by (simp add: upt_rec)
  with img(1) show "launch (adjustShadowsHighlightsKernel 2 1) (1, 1) (16, 16) [128, 129]
      = Inr [140, 135]"
    by simp
qed

lemma adjustPixel_255: "adjustPixel 255 = Inl NotRepresentable"
  by (simp add: adjustPixel_def f32_eval)

text \<open>
  C2. The claim is that every stored pixel is saturated into \<open>[0, 255]\<close>, and that the
  pixel 255 is clamped to 255. In the highlight branch the product is bounded below by
  \<open>0\<close> only: for the pixel 255 the value converted to \<^verbatim>\<open>unsigned char\<close> is
  \<open>267.75 = 1071 \<sqdot> 2\<^sup>-\<^sup>2\<close>, which is not a value of that type, and the launch on the
  one-pixel image faults at the conversion.
\<close>

theorem highlight_255_not_clamped:
  "max c_0 (f32_mul c_1_05 255) = 1071 * 2 ^ 25 \<and>
   adjustPixel 255 = Inl NotRepresentable \<and>
   launch (adjustShadowsHighlightsKernel 1 1) (1, 1) (16, 16) [255] = Inl NotRepresentable"
proof (intro conjI)
  show "max c_0 (f32_mul c_1_05 255) = 1071 * 2 ^ 25"
    by (simp add: f32_eval)
  show "adjustPixel 255 = Inl NotRepresentable"
    by (rule adjustPixel_255)
  have "adjustShadowsHighlightsKernel 1 1 (0, 0) [255] = Inl NotRepresentable"
    by (simp add: adjustShadowsHighlightsKernel_def rd_def adjustPixel_255)
  then show "launch (adjustShadowsHighlightsKernel 1 1) (1, 1) (16, 16) [255] = Inl NotRepresentable"
    by (intro launch_first_fault) simp_all
qed

text \<open>
  C3. The claim is that the stored value is never below the pixel. The pixel 243 is stored
  as 255; from 244 on the highlight product is 256 or more and its conversion to
  \<^verbatim>\<open>unsigned char\<close> is undefined, so no stored value is guaranteed.
\<close>

theorem highlight_244_not_brighter:
  "adjustPixel 243 = Inr 255 \<and> adjustPixel 244 = Inl NotRepresentable"
  by (simp add: adjustPixel_def f32_eval)

lemma grayPixel_100: "grayPixel cm 100 100 100 = Inr 100"
proof (cases cm)
  case (Pair f c)
  then show ?thesis
    by (cases f; cases c) (simp_all add: grayPixel_def luminance_def sum_rg_def f32_eval)
qed


lemma adjustPixel_100: "adjustPixel 100 = Inr 110"
  by (simp add: adjustPixel_def f32_eval)

section \<open>The cropper\<close>



section \<open>The colour reducer\<close>

lemma gray_1x1:
  assumes "grayPixel cm r g b = Inr w"
  shows "launch (rgbToGrayKernel cm [r, g, b] 1 1) (1, 1) (16, 16) [z] = Inr [w]"
proof -
  obtain gray where gray: "launch (rgbToGrayKernel cm [r, g, b] 1 1) (1, 1) (16, 16) [z] = Inr gray"
      "length gray = 1"
      "\<forall>x y. 0 \<le> x \<and> x < 1 \<and> 0 \<le> y \<and> y < 1 \<longrightarrow>
         grayPixel cm ([r, g, b] ! nat ((y * 1 + x) * 3)) ([r, g, b] ! nat ((y * 1 + x) * 3 + 1))
           ([r, g, b] ! nat ((y * 1 + x) * 3 + 2)) = Inr (pixel_at gray 1 x y)"
    using rgbToGrayKernel_launch [of "[r, g, b]" 1 1 "[z]" "(1, 1)" "(16, 16)" cm] by auto
  have "gray ! 0 = w"
    using gray(3) [rule_format, of 0 0] assms by (simp add: pixel_at_def)
  then have "gray = [w]"
    using list_of_nths [OF gray(2)] by simp
  with gray(1) show ?thesis
    by simp
qed

text \<open>
  C8. A gray pixel \<open>R = G = B = v\<close> is a fixed point of the colour reducer up to one unit:
  the stored value is \<open>v\<close> or \<open>v - 1\<close>, whichever way the compiler contracts the sum.
\<close>

theorem gray_fixed_point:
  "\<exists>w. launch (rgbToGrayKernel cm [v, v, v] 1 1) (1, 1) (16, 16) [z] = Inr [w] \<and>
       grayPixel cm v v v = Inr w \<and> (unat w = unat v \<or> unat w + 1 = unat v)"
proof -
  have "luminance_spec v v v = unat v"
    by (simp add: luminance_spec_def)
  with grayPixel_spec [of cm v v v] obtain w
    where w: "grayPixel cm v v v = Inr w" "unat w = unat v \<or> unat w + 1 = unat v"
    by auto
  from gray_1x1 [OF w(1), of z] w show ?thesis
    by blast
qed





section \<open>The crop window of the host program\<close>

lemma cropWindow_eq:
  "cropWindow width height =
     (min width height, min width height, (max width height - min width height) div 2, 0)"
  by (simp add: cropWindow_def Let_def)

text \<open>
  C1. The claim is that the window is a square of side \<open>min(W, H)\<close> centred along the
  longer axis, so that a portrait image (\<open>H > W\<close>) gets \<open>offsetX = 0\<close> and the offset in
  \<open>offsetY\<close>. The host computes the side and the offset as claimed, but passes the offset
  as \<open>offsetX\<close> and the constant \<open>0\<close> as \<open>offsetY\<close> whatever the orientation: for the
  \<open>2 \<times> 6\<close> image the window is \<open>(dstWidth, dstHeight, offsetX, offsetY) = (2, 2, 2, 0)\<close>,
  not \<open>(2, 2, 0, 2)\<close>, and the kernel then copies the bytes 2 to 5 of the source (its rows
  1 and 2) where rows 2 and 3 (bytes 4 to 7) were meant.
\<close>

theorem cropWindow_portrait_2x6:
  "cropWindow 2 6 = (2, 2, 2, 0) \<and>
   launch (cropKernel [10, 11, 20, 21, 30, 31, 40, 41, 50, 51, 60, 61] 2 6 2 2 2 0) (1, 1) (16, 16)
     [0, 0, 0, 0] = Inr [20, 21, 30, 31]"
proof
  show "cropWindow 2 6 = (2, 2, 2, 0)"
    by (simp add: cropWindow_eq)
  define src :: buffer where "src = [10, 11, 20, 21, 30, 31, 40, 41, 50, 51, 60, 61]"
  have "\<exists>dst. launch (cropKernel src 2 6 2 2 2 0) (1, 1) (16, 16) [0, 0, 0, 0] = Inr dst \<and>
      length dst = nat (2 * 2) \<and>
      (\<forall>x y. 0 \<le> x \<and> x < 2 \<and> 0 \<le> y \<and> y < 2 \<longrightarrow>
         pixel_at dst 2 x y = pixel_at src 2 (x + 2) (y + 0))"
    by (rule cropKernel_launch) (simp_all add: src_def)
  then obtain dst where dst: "launch (cropKernel src 2 6 2 2 2 0) (1, 1) (16, 16) [0, 0, 0, 0]
        = Inr dst" "length dst = 4"
      "\<forall>x y. 0 \<le> x \<and> x < 2 \<and> 0 \<le> y \<and> y < 2 \<longrightarrow>
         pixel_at dst 2 x y = pixel_at src 2 (x + 2) (y + 0)"
    by auto
  have "dst ! 0 = 20" "dst ! 1 = 21" "dst ! 2 = 30" "dst ! 3 = 31"
    using dst(3) [rule_format, of 0 0] dst(3) [rule_format, of 1 0]
      dst(3) [rule_format, of 0 1] dst(3) [rule_format, of 1 1]
    by (simp_all add: pixel_at_def src_def)
  then have "dst = [20, 21, 30, 31]"
    using list_of_nths [OF dst(2)] by (simp add: upt_rec numeral_2_eq_2 numeral_3_eq_3)
  with dst(1) show "launch (cropKernel [10, 11, 20, 21, 30, 31, 40, 41, 50, 51, 60, 61] 2 6 2 2 2 0)
      (1, 1) (16, 16) [0, 0, 0, 0] = Inr [20, 21, 30, 31]"
    by (simp add: src_def)
qed

lemma int32_id: "- (2 ^ 31) \<le> n \<Longrightarrow> n < 2 ^ 31 \<Longrightarrow> int32 n = n"
  by (simp add: int32_def)

text \<open>
  C10, as stated: for every positive \<open>W\<close> and \<open>H\<close> no read of the crop kernel falls
  outside the source allocation. The host computes the size of the allocation as the
  \<^verbatim>\<open>int\<close> product \<open>W \<sqdot> H\<close>: for \<open>W = H = 65536\<close> the window is
  \<open>(65536, 65536, 0, 0)\<close>, the product wraps to \<open>0\<close>, source and destination have no
  byte, and the thread \<open>(0, 0)\<close> already reads outside; in the thread \<open>(0, 32768)\<close> the
  index itself, computed in \<^verbatim>\<open>int\<close>, wraps to \<open>-2\<^sup>3\<^sup>1\<close>.
\<close>

theorem crop_65536_reads_outside_source:
  "cropWindow 65536 65536 = (65536, 65536, 0, 0) \<and>
   nat (int32 (65536 * 65536)) = length ([] :: buffer) \<and>
   cropKernel [] 65536 65536 65536 65536 0 0 (0, 0) [] = Inl OutOfBounds \<and>
   srcIdx_int 0 32768 0 0 65536 = - (2 ^ 31)"
  by (simp add: cropWindow_eq int32_def cropKernel_def rd_def srcIdx_int_def)

text \<open>
  C10, amended: for every positive \<open>W\<close> and \<open>H\<close> whose product does not exceed
  \<open>INT_MAX\<close>, with the window the host passes and the source and destination planes of the
  sizes the host allocates, every thread \<open>(x, y)\<close> of the window computes, in \<^verbatim>\<open>int\<close>
  and without wrap-around, the index \<open>(y + offsetY) \<sqdot> W + (x + offsetX)\<close>; the index lies
  inside the source plane, and the thread copies that byte to the cell \<open>y \<sqdot> dstWidth + x\<close>
  of the destination. This holds for a landscape and for a portrait image alike.
\<close>

theorem cropWindow_reads_inside_source:
  assumes "0 < width" and "0 < height" and "width * height \<le> INT_MAX"
    and "cropWindow width height = (dstWidth, dstHeight, offsetX, offsetY)"
    and "length d_gray = nat (int32 (width * height))"
    and "length d_dst = nat (int32 (dstWidth * dstHeight))"
    and "0 \<le> x" and "x < dstWidth" and "0 \<le> y" and "y < dstHeight"
  shows "srcIdx_int x y offsetX offsetY width = (y + offsetY) * width + (x + offsetX) \<and>
         0 \<le> (y + offsetY) * width + (x + offsetX) \<and>
         (y + offsetY) * width + (x + offsetX) < int (length d_gray) \<and>
         cropKernel d_gray width height dstWidth dstHeight offsetX offsetY (x, y) d_dst =
           Inr (d_dst[nat (y * dstWidth + x) :=
                  d_gray ! nat ((y + offsetY) * width + (x + offsetX))])"
proof -
  define n where "n = width * height"
  define s where "s = min width height"
  define i where "i = y * width + (x + offsetX)"
  have w: "dstWidth = s" "dstHeight = s"
      "offsetX = (max width height - min width height) div 2" "offsetY = 0"
    using assms(4) by (auto simp: cropWindow_eq s_def)
  have n: "0 < n" "n < 2 ^ 31"
    using assms(1-3) by (simp_all add: n_def INT_MAX_def)
  have o: "0 \<le> offsetX"
    using w(3) by simp
  have i: "0 \<le> i" "i < n"
  proof -
    show "0 \<le> i"
      using assms(1,7,9) o by (simp add: i_def)
    show "i < n"
    proof (cases "height \<le> width")
      case True
      then have "x + offsetX < width" "0 \<le> x + offsetX" "y < height"
        using assms(7-10) w by (simp_all add: s_def)
      then show ?thesis
        using idx_bound(2) [of "x + offsetX" width y height] assms(9) by (simp add: i_def n_def)
    next
      case False
      define d where "d = height - width"
      have d: "0 < d" "height = width + d"
        using False by (simp_all add: d_def)
      have od: "offsetX \<le> d"
        using False w(3) d by simp
      have xy: "x < width" "y \<le> width - 1"
        using assms(8,10) w False by (simp_all add: s_def)
      have "y * width \<le> (width - 1) * width"
        using xy(2) assms(1) by (intro mult_right_mono) simp_all
      then have yw: "y * width \<le> width * width - width"
        by (simp add: algebra_simps)
      have "1 * d \<le> width * d"
        using assms(1) d(1) by (intro mult_right_mono) simp_all
      then have dw: "d \<le> width * d"
        by simp
      have "n = width * width + width * d"
        by (simp add: n_def d(2) algebra_simps)
      then show ?thesis
        using yw dw od xy(1) by (simp add: i_def)
    qed
  qed
  have yw: "0 \<le> y * width"
    using assms(1,9) by simp
  have xo: "0 \<le> x + offsetX"
    using assms(7) o by simp
  have "y * 1 \<le> y * width"
    using assms(1,9) by (intro mult_left_mono) simp_all
  then have "int32 y = y"
    using assms(9) xo i n by (intro int32_id) (simp_all add: i_def)
  moreover have "int32 (y * width) = y * width"
    using yw xo i n by (intro int32_id) (simp_all add: i_def)
  moreover have "int32 (x + offsetX) = x + offsetX"
    using yw xo i n by (intro int32_id) (simp_all add: i_def)
  moreover have "int32 i = i"
    using i n by (intro int32_id) simp_all
  ultimately have idx: "srcIdx_int x y offsetX offsetY width = i"
    by (simp add: srcIdx_int_def w(4) i_def)
  have "int32 n = n"
    using n by (intro int32_id) simp_all
  then have lg: "int (length d_gray) = n"
    using assms(5) n by (simp add: n_def)
  have "0 \<le> s" "s \<le> width" "s \<le> height"
    using assms(1,2) by (simp_all add: s_def)
  then have "s * s \<le> n"
    unfolding n_def by (intro mult_mono) simp_all
  moreover have "0 \<le> s * s"
    by (rule zero_le_square)
  ultimately have "int32 (s * s) = s * s"
    using n by (intro int32_id; linarith)
  then have ld: "int (length d_dst) = s * s"
    using assms(6) w by simp
  have j: "0 \<le> y * s + x" "y * s + x < s * s"
    using idx_bound [of x s y s] assms(7-10) w by simp_all
  have r: "rd d_gray i = Inr (d_gray ! nat i)"
    using i lg by (simp add: rd_def)
  have "wr d_dst (y * s + x) v = Inr (d_dst[nat (y * s + x) := v])" for v
    using j ld by (simp add: wr_def)
  then have "cropKernel d_gray width height s s offsetX 0 (x, y) d_dst =
      Inr (d_dst[nat (y * s + x) := d_gray ! nat i])"
    using assms(8,10) w r by (simp add: cropKernel_def i_def)
  with idx i lg show ?thesis
    by (simp add: w i_def)
qed

theorem cropWindow_reads_inside_source_witness:
  "srcIdx_int 1 1 2 0 2 = 5 \<and>
   cropKernel [10, 11, 20, 21, 30, 31, 40, 41, 50, 51, 60, 61] 2 6 2 2 2 0 (1, 1) [0, 0, 0, 0]
     = Inr [0, 0, 0, 31]"
  using cropWindow_reads_inside_source [of 2 6 2 2 2 0
      "[10, 11, 20, 21, 30, 31, 40, 41, 50, 51, 60, 61]" "[0, 0, 0, 0]" 1 1]
  by (simp add: cropWindow_eq INT_MAX_def int32_def)

section \<open>One image through the pipeline\<close>

lemma plane_const:
  fixes w h :: int
  assumes len: "length buf = nat (w * h)" and w: "0 < w"
    and px: "\<And>x y. 0 \<le> x \<Longrightarrow> x < w \<Longrightarrow> 0 \<le> y \<Longrightarrow> y < h \<Longrightarrow> pixel_at buf w x y = c"
  shows "buf = replicate (nat (w * h)) c"
proof (rule replicate_eqI [OF len])
  fix v assume "v \<in> set buf"
  then obtain j where j: "j < length buf" "buf ! j = v"
    by (auto simp: in_set_conv_nth)
  define x y where "x = int j mod w" and "y = int j div w"
  have x: "0 \<le> x" "x < w"
    using w by (simp_all add: x_def)
  have y0: "0 \<le> y"
    using w by (simp add: y_def pos_imp_zdiv_nonneg_iff)
  have eq: "y * w + x = int j"
    by (simp add: x_def y_def)
  have "int j < w * h"
    using j(1) len by simp
  then have "y * w < h * w"
    using eq x(1) by (simp add: mult.commute)
  then have "y < h"
    using w by (simp add: mult_less_cancel_right_pos)
  from px [OF x y0 this] show "v = c"
    using j(2) eq by (simp add: pixel_at_def)
qed

lemma gray_uniform_3x5:
  assumes "3 \<le> int (fst g * fst b)" and "5 \<le> int (snd g * snd b)"
  shows "launch (rgbToGrayKernel cm (replicate 45 100) 3 5) g b (cudaMalloc junk 15)
     = Inr (replicate 15 100)"
proof -
  obtain gray where gray:
      "launch (rgbToGrayKernel cm (replicate 45 100) 3 5) g b (cudaMalloc junk 15)
        = Inr gray" "length gray = nat (3 * 5)"
      "\<forall>x y. 0 \<le> x \<and> x < 3 \<and> 0 \<le> y \<and> y < 5 \<longrightarrow>
         grayPixel cm (replicate 45 100 ! nat ((y * 3 + x) * 3))
           (replicate 45 100 ! nat ((y * 3 + x) * 3 + 1))
           (replicate 45 100 ! nat ((y * 3 + x) * 3 + 2)) = Inr (pixel_at gray 3 x y)"
    using rgbToGrayKernel_launch [of "replicate 45 100" 3 5 "cudaMalloc junk 15" g b cm] assms
    by (auto simp: cudaMalloc_def)
  have "pixel_at gray 3 x y = 100" if "0 \<le> x" "x < 3" "0 \<le> y" "y < 5" for x y
    using gray(3) [rule_format, of x y] that by (simp add: grayPixel_100)
  then have "gray = replicate (nat (3 * 5)) 100"
    by (intro plane_const gray(2)) simp_all
  with gray(1) show ?thesis
    by simp
qed

lemma crop_uniform_3x5:
  assumes "3 \<le> int (fst g * fst b)" and "3 \<le> int (snd g * snd b)"
  shows "launch (cropKernel (replicate 15 100) 3 5 3 3 1 0) g b (cudaMalloc junk 9)
     = Inr (replicate 9 100)"
proof -
  have "\<exists>dst. launch (cropKernel (replicate 15 100) 3 5 3 3 1 0) g b (cudaMalloc junk 9)
        = Inr dst \<and> length dst = nat (3 * 3) \<and>
      (\<forall>x y. 0 \<le> x \<and> x < 3 \<and> 0 \<le> y \<and> y < 3 \<longrightarrow>
         pixel_at dst 3 x y = pixel_at (replicate 15 100) 3 (x + 1) (y + 0))"
    using assms by (intro cropKernel_launch) (simp_all add: cudaMalloc_def)
  then obtain dst where dst:
      "launch (cropKernel (replicate 15 100) 3 5 3 3 1 0) g b (cudaMalloc junk 9)
        = Inr dst" "length dst = nat (3 * 3)"
      "\<forall>x y. 0 \<le> x \<and> x < 3 \<and> 0 \<le> y \<and> y < 3 \<longrightarrow>
         pixel_at dst 3 x y = pixel_at (replicate 15 100) 3 (x + 1) (y + 0)"
    by blast
  have "pixel_at dst 3 x y = 100" if "0 \<le> x" "x < 3" "0 \<le> y" "y < 3" for x y
    using dst(3) [rule_format, of x y] that by (simp add: pixel_at_def)
  then have "dst = replicate (nat (3 * 3)) 100"
    by (intro plane_const dst(2)) simp_all
  with dst(1) show ?thesis
    by simp
qed

lemma adjust_uniform_3x3:
  assumes "3 \<le> int (fst g * fst b)" and "3 \<le> int (snd g * snd b)"
  shows "launch (adjustShadowsHighlightsKernel 3 3) g b (replicate 9 100)
     = Inr (replicate 9 110)"
proof -
  have "\<exists>img. launch (adjustShadowsHighlightsKernel 3 3) g b (replicate 9 100) = Inr img \<and>
      length img = nat (3 * 3) \<and>
      (\<forall>x y. 0 \<le> x \<and> x < 3 \<and> 0 \<le> y \<and> y < 3 \<longrightarrow>
         adjustPixel (pixel_at (replicate 9 100) 3 x y) = Inr (pixel_at img 3 x y) \<and>
         pixel_at (replicate 9 100) 3 x y \<le> pixel_at img 3 x y)"
    using assms by (intro adjustKernel_launch) simp_all
  then obtain img where img:
      "launch (adjustShadowsHighlightsKernel 3 3) g b (replicate 9 100) = Inr img"
      "length img = nat (3 * 3)"
      "\<forall>x y. 0 \<le> x \<and> x < 3 \<and> 0 \<le> y \<and> y < 3 \<longrightarrow>
         adjustPixel (pixel_at (replicate 9 100) 3 x y) = Inr (pixel_at img 3 x y) \<and>
         pixel_at (replicate 9 100) 3 x y \<le> pixel_at img 3 x y"
    by blast
  have "pixel_at img 3 x y = 110" if "0 \<le> x" "x < 3" "0 \<le> y" "y < 3" for x y
    using img(3) [rule_format, of x y] that by (simp add: pixel_at_def adjustPixel_100)
  then have "img = replicate (nat (3 * 3)) 110"
    by (intro plane_const img(2)) simp_all
  with img(1) show ?thesis
    by simp
qed

text \<open>
  C7. The claim is that the \<open>3 \<times> 5\<close> image of uniform value 100 is cropped with the
  offset 1 on the height axis and comes out as a \<open>3 \<times> 3\<close> image of value 110. The host
  passes the window \<open>(dstWidth, dstHeight, offsetX, offsetY) = (3, 3, 1, 0)\<close>: the offset
  is on the width axis, not \<open>(3, 3, 0, 1)\<close>. The output is the \<open>3 \<times> 3\<close> image of value
  110 all the same, since every byte of the gray plane is 100, whatever the fresh device
  memory holds and however the luminance expression is contracted.
\<close>

theorem pipeline_3x5_offset_on_width_axis:
  "cropWindow 3 5 = (3, 3, 1, 0) \<and> cropWindow 3 5 \<noteq> (3, 3, 0, 1) \<and>
   processImage cm junk 3 5 (replicate 45 100) = Inr (3, 3, replicate 9 110)"
  by (simp add: processImage_def cropWindow_eq Let_def int32_def
      gray_uniform_3x5 crop_uniform_3x5 adjust_uniform_3x3)

section \<open>The batch\<close>

















end
